theory Spec2Isabelle
  imports Complex_Main "HOL-Library.Sublist"
begin

section \<open>The Go runtime as far as the bot uses it\<close>

text \<open>
  A Go \<^verbatim>\<open>string\<close> is a sequence of bytes: \<^verbatim>\<open>len\<close> counts bytes, \<^verbatim>\<open>s[i]\<close> is a byte
  and \<^verbatim>\<open>s[a:b]\<close> is a run of bytes. It is modelled as \<^typ>\<open>string\<close>, a list of 8-bit
  characters. A Go \<^verbatim>\<open>int\<close> is modelled as \<^typ>\<open>int\<close>: the only arithmetic of the code is
  \<^verbatim>\<open>limit - 8\<close>, \<^verbatim>\<open>len(s) - 1\<close>, \<^verbatim>\<open>len(toCrop) + buffer\<close> and a few subtractions from 500,
  none of which leaves the 64-bit range on the inputs the theorems below speak about.

  An index or a slice expression outside the bounds makes the Go runtime panic. The
  panic is a value here: every function that can panic returns \<open>panic + 'a\<close> and the
  left injection is the panic.
\<close>

datatype panic = SliceBoundsOutOfRange | IndexOutOfRange

text \<open>\<^verbatim>\<open>s[i]\<close>: panics unless \<open>0 \<le> i < len(s)\<close>.\<close>

definition index :: "'a list \<Rightarrow> int \<Rightarrow> panic + 'a" where
  "index s i =
     (if 0 \<le> i \<and> i < int (length s) then Inr (s ! nat i) else Inl IndexOutOfRange)"

text \<open>\<^verbatim>\<open>s[lo:hi]\<close>: panics unless \<open>0 \<le> lo \<le> hi \<le> len(s)\<close>.\<close>

definition slice :: "'a list \<Rightarrow> int \<Rightarrow> int \<Rightarrow> panic + 'a list" where
  "slice s lo hi =
     (if 0 \<le> lo \<and> lo \<le> hi \<and> hi \<le> int (length s)
      then Inr (take (nat (hi - lo)) (drop (nat lo) s))
      else Inl SliceBoundsOutOfRange)"

subsection \<open>Package strings\<close>

text \<open>
  \<^verbatim>\<open>strings.ReplaceAll(s, old, new)\<close> replaces the non-overlapping occurrences of
  \<^verbatim>\<open>old\<close> from left to right. The bot calls it with \<^verbatim>\<open>old = "\r\n"\<close> only; for an empty
  \<^verbatim>\<open>old\<close> (where Go inserts \<^verbatim>\<open>new\<close> around every rune) the model returns \<open>s\<close>.
\<close>

function ReplaceAll :: "string \<Rightarrow> string \<Rightarrow> string \<Rightarrow> string" where
  "ReplaceAll [] old new = []"
| "ReplaceAll (c # cs) old new =
     (if old \<noteq> [] \<and> prefix old (c # cs)
      then new @ ReplaceAll (drop (length old) (c # cs)) old new
      else c # ReplaceAll cs old new)"
  by pat_completeness auto
termination
  by (relation "measure (\<lambda>(s, old, new). length s)") (auto simp: neq_Nil_conv)

text \<open>
  \<^verbatim>\<open>strings.Split(s, sep)\<close> cuts \<open>s\<close> at every non-overlapping occurrence of a non-empty
  \<^verbatim>\<open>sep\<close>; the result always has at least one element (\<^verbatim>\<open>Split("", "\n")\<close> is \<^verbatim>\<open>[""]\<close>).
  The bot calls it with \<^verbatim>\<open>sep = "\n"\<close> only.
\<close>

function Split :: "string \<Rightarrow> string \<Rightarrow> string list" where
  "Split [] sep = [[]]"
| "Split (c # cs) sep =
     (if sep \<noteq> [] \<and> prefix sep (c # cs)
      then [] # Split (drop (length sep) (c # cs)) sep
      else (case Split cs sep of [] \<Rightarrow> [[c]] | l # ls \<Rightarrow> (c # l) # ls))"
  by pat_completeness auto
termination
  by (relation "measure (\<lambda>(s, sep). length s)") (auto simp: neq_Nil_conv)

text \<open>\<^verbatim>\<open>strings.Join(elems, sep)\<close>.\<close>

fun Join :: "string list \<Rightarrow> string \<Rightarrow> string" where
  "Join [] sep = []"
| "Join [x] sep = x"
| "Join (x # y # ys) sep = x @ sep @ Join (y # ys) sep"

text \<open>
  \<^verbatim>\<open>strings.EqualFold(s, t)\<close> reports whether the two strings are equal under Unicode
  simple case folding. The standard library decides the ASCII part of the strings by
  itself and goes on to the Unicode tables at the first position where one of the two
  bytes is not ASCII:
  \<^verbatim>\<open>
  func EqualFold(s, t string) bool {
      // ASCII fast path
      i := 0
      for ; i < len(s) && i < len(t); i++ {
          sr := s[i]
          tr := t[i]
          if sr|tr >= utf8.RuneSelf {
              goto hasUnicode
          }
          // Easy case.
          if tr == sr {
              continue
          }
          // Make sr < tr to simplify what follows.
          if tr < sr {
              tr, sr = sr, tr
          }
          // ASCII only, sr/tr must be upper/lower case
          if 'A' <= sr && sr <= 'Z' && tr == sr+'a'-'A' {
              continue
          }
          return false
      }
      // Check if we've exhausted both strings.
      return len(s) == len(t)

  hasUnicode:
      s = s[i:]
      t = t[i:]
      ... // rune by rune, with unicode.SimpleFold
  }
  \<close>
  The loop is modelled as it stands. The part after the label \<^verbatim>\<open>hasUnicode\<close>, which
  decodes UTF-8 and walks the folding tables of package \<^verbatim>\<open>unicode\<close>, is the parameter
  \<open>hasUnicode\<close> of the model: it is given the two rests \<^verbatim>\<open>s[i:]\<close> and \<^verbatim>\<open>t[i:]\<close>. A theorem
  about every \<open>hasUnicode\<close> holds of the library's function, whatever its tables say.
\<close>

text \<open>The value of a byte, \<^verbatim>\<open>utf8.RuneSelf\<close> being 128, \<^verbatim>\<open>'A'\<close> 65, \<^verbatim>\<open>'Z'\<close> 90 and
  \<^verbatim>\<open>'a' - 'A'\<close> 32.\<close>

definition byte :: "char \<Rightarrow> nat" where
  "byte c = of_char c"

text \<open>The test on two different ASCII bytes, the smaller one taken as \<^verbatim>\<open>sr\<close>.\<close>

definition upperLower :: "char \<Rightarrow> char \<Rightarrow> bool" where
  "upperLower sr tr =
     (let lo = min (byte sr) (byte tr); hi = max (byte sr) (byte tr)
      in 65 \<le> lo \<and> lo \<le> 90 \<and> hi = lo + 32)"

fun EqualFold :: "(string \<Rightarrow> string \<Rightarrow> bool) \<Rightarrow> string \<Rightarrow> string \<Rightarrow> bool" where
  "EqualFold hasUnicode (sr # s) (tr # t) =
     (if 128 \<le> byte sr \<or> 128 \<le> byte tr then hasUnicode (sr # s) (tr # t)
      else if tr = sr then EqualFold hasUnicode s t
      else if upperLower sr tr then EqualFold hasUnicode s t
      else False)"
| "EqualFold hasUnicode s t = (length s = length t)"

text \<open>
  For the concrete runs below, a Unicode part that folds nothing: the rests have to be
  equal byte for byte. The runs are on ASCII strings, where no Unicode part is reached
  and every \<open>hasUnicode\<close> gives the same result (\<open>EqualFold_ascii\<close> below).
\<close>

definition bytewise :: "string \<Rightarrow> string \<Rightarrow> bool" where
  "bytewise s t = (s = t)"

section \<open>bot.go\<close>

text \<open>Of \<^verbatim>\<open>discordgo.Message\<close> the bot reads the field \<^verbatim>\<open>Content\<close> only.\<close>

record Message =
  Content :: string

text \<open>The three backticks, the line feed and the carriage return followed by a line feed.\<close>

definition fence :: string where
  "fence = ''```''"

definition LF :: string where
  "LF = [CHR 0x0A]"

definition CRLF :: string where
  "CRLF = [CHR 0x0D, CHR 0x0A]"

text \<open>
  \<^verbatim>\<open>c := strings.Split(strings.ReplaceAll(m.Content, "\r\n", "\n"), "\n")\<close>, the first
  statement of both \<^verbatim>\<open>isCodeMessage\<close> and \<^verbatim>\<open>getLanguageAndCodeFromMessage\<close>.
\<close>

definition messageLines :: "Message \<Rightarrow> string list" where
  "messageLines m = Split (ReplaceAll (Content m) CRLF LF) LF"

text \<open>
  \<^verbatim>\<open>
  func isCodeMessage(m *discordgo.Message) bool {
      c := strings.Split(strings.ReplaceAll(m.Content, "\r\n", "\n"), "\n")
      if len(c) < 2 {
          return false
      }
      return c[0][:3] == "```" && c[len(c)-1] == "```"
  }
  \<close>
  \<^verbatim>\<open>&&\<close> evaluates its right operand only when the left one is true.
\<close>

definition isCodeMessage :: "Message \<Rightarrow> panic + bool" where
  "isCodeMessage m =
     (let c = messageLines m in
      if int (length c) < 2 then Inr False
      else
        case index c 0 of Inl e \<Rightarrow> Inl e | Inr c0 \<Rightarrow>
        case slice c0 0 3 of Inl e \<Rightarrow> Inl e | Inr start \<Rightarrow>
          if start = fence
          then (case index c (int (length c) - 1) of
                  Inl e \<Rightarrow> Inl e
                | Inr final \<Rightarrow> Inr (final = fence))
          else Inr False)"

text \<open>
  \<^verbatim>\<open>
  func getLanguageAndCodeFromMessage(m *discordgo.Message) (string, string) {
      c := strings.Split(strings.ReplaceAll(m.Content, "\r\n", "\n"), "\n")
      for i, j := range languageMappings {
          test := c[0][3:]
          code := strings.Join(c[1:len(c)-1], "\n")
          if strings.EqualFold(test, i) {
              return i, code
          }
          for _, k := range j {
              if strings.EqualFold(k, test) {
                  return i, code
              }
          }
      }
      return "", strings.Join(c[1:len(c)-1], "\n")
  }
  \<close>
  \<^verbatim>\<open>languageMappings\<close> is a global \<^verbatim>\<open>map[string][]string\<close> from a canonical language
  name to its aliases, filled once at start-up. Go leaves the order in which \<^verbatim>\<open>range\<close>
  visits a map open, so the model takes the map as the list of its entries in the order
  of the visit: a statement about every list is a statement about every order.
\<close>

type_synonym registry = "(string \<times> string list) list"

text \<open>The inner loop over the aliases \<open>j\<close>: whether it returns from the function.\<close>

fun rangeAliases :: "(string \<Rightarrow> string \<Rightarrow> bool) \<Rightarrow> string list \<Rightarrow> string \<Rightarrow> bool" where
  "rangeAliases hasUnicode [] test = False"
| "rangeAliases hasUnicode (k # ks) test =
     (if EqualFold hasUnicode k test then True else rangeAliases hasUnicode ks test)"

text \<open>The outer loop and the final \<^verbatim>\<open>return\<close>.\<close>

fun rangeLanguageMappings ::
    "(string \<Rightarrow> string \<Rightarrow> bool) \<Rightarrow> registry \<Rightarrow> string list \<Rightarrow> panic + (string \<times> string)" where
  "rangeLanguageMappings hasUnicode [] c =
     (case slice c 1 (int (length c) - 1) of
        Inl e \<Rightarrow> Inl e
      | Inr body \<Rightarrow> Inr ([], Join body LF))"
| "rangeLanguageMappings hasUnicode ((i, j) # rest) c =
     (case index c 0 of Inl e \<Rightarrow> Inl e | Inr c0 \<Rightarrow>
      case slice c0 3 (int (length c0)) of Inl e \<Rightarrow> Inl e | Inr test \<Rightarrow>
      case slice c 1 (int (length c) - 1) of Inl e \<Rightarrow> Inl e | Inr body \<Rightarrow>
        (let code = Join body LF in
         if EqualFold hasUnicode test i then Inr (i, code)
         else if rangeAliases hasUnicode j test then Inr (i, code)
         else rangeLanguageMappings hasUnicode rest c))"

definition getLanguageAndCodeFromMessage ::
    "(string \<Rightarrow> string \<Rightarrow> bool) \<Rightarrow> registry \<Rightarrow> Message \<Rightarrow> panic + (string \<times> string)" where
  "getLanguageAndCodeFromMessage hasUnicode languageMappings m =
     rangeLanguageMappings hasUnicode languageMappings (messageLines m)"

text \<open>
  The language the loop returns for a given value of \<^verbatim>\<open>test\<close>: the two loops again,
  without the slicing and the code. It is used in the proofs only;
  \<open>rangeLanguageMappings_resolve\<close> below ties it to the function.
\<close>

fun resolveLanguage :: "(string \<Rightarrow> string \<Rightarrow> bool) \<Rightarrow> registry \<Rightarrow> string \<Rightarrow> string" where
  "resolveLanguage hasUnicode [] test = []"
| "resolveLanguage hasUnicode ((i, j) # rest) test =
     (if EqualFold hasUnicode test i then i
      else if rangeAliases hasUnicode j test then i
      else resolveLanguage hasUnicode rest test)"

text \<open>
  \<^verbatim>\<open>
  func stringInSlice(s string, a []string) bool {
      for _, i := range a {
          if i == s {
              return true
          }
      }
      return false
  }
  \<close>
\<close>

fun stringInSlice :: "string \<Rightarrow> string list \<Rightarrow> bool" where
  "stringInSlice s [] = False"
| "stringInSlice s (i # a) = (if i = s then True else stringInSlice s a)"

text \<open>
  The handler of the \<^verbatim>\<open>/run\<close> command, from the messages of the channel to the call of
  \<^verbatim>\<open>Exec\<close>:
  \<^verbatim>\<open>
  messages, err := s.ChannelMessages(i.ChannelID, 10, "", "", "")
  ...
  message := &discordgo.Message{}
  for _, m := range messages {
      if isCodeMessage(m) {
          message = m
          break
      }
  }
  if message.Content == "" {
      ... "No code messages found in the last 10 messages. ..."
      return
  }
  lang, code := getLanguageAndCodeFromMessage(message)
  if len(i.ApplicationCommandData().Options) > 0 {
      lang = i.ApplicationCommandData().Options[0].StringValue()
      if !stringInSlice(lang, languages) {
          ... "Language %v is not supported. Supported languages are: %v"
          return
      }
  }
  if lang == "" {
      ... "No language provided. ..."
      return
  }
  output, err := Exec(lang, "", code)
  \<close>
  \<^verbatim>\<open>languages\<close> is the global list of the canonical names. The model takes the messages
  that \<^verbatim>\<open>ChannelMessages\<close> returned and the string values of the options of the command,
  and returns what the handler does next: one of its three followup messages, or the
  call of \<^verbatim>\<open>Exec\<close> with its language and code.
\<close>

datatype outcome =
    NoCodeMessages
  | NotSupported string
  | NoLanguage
  | Exec string string

fun rangeMessages :: "Message list \<Rightarrow> panic + Message" where
  "rangeMessages [] = Inr \<lparr>Content = []\<rparr>"
| "rangeMessages (m # ms) =
     (case isCodeMessage m of
        Inl e \<Rightarrow> Inl e
      | Inr found \<Rightarrow> if found then Inr m else rangeMessages ms)"

definition runHandler ::
    "(string \<Rightarrow> string \<Rightarrow> bool) \<Rightarrow> registry \<Rightarrow> string list \<Rightarrow> Message list \<Rightarrow> string list
      \<Rightarrow> panic + outcome" where
  "runHandler hasUnicode languageMappings languages messages options =
     (case rangeMessages messages of
        Inl e \<Rightarrow> Inl e
      | Inr message \<Rightarrow>
          if Content message = [] then Inr NoCodeMessages
          else
            (case getLanguageAndCodeFromMessage hasUnicode languageMappings message of
               Inl e \<Rightarrow> Inl e
             | Inr (lang, code) \<Rightarrow>
                 (case options of
                    [] \<Rightarrow> if lang = [] then Inr NoLanguage else Inr (Exec lang code)
                  | opt # _ \<Rightarrow>
                      if \<not> stringInSlice opt languages then Inr (NotSupported opt)
                      else if opt = [] then Inr NoLanguage
                      else Inr (Exec opt code))))"

text \<open>
  \<^verbatim>\<open>
  func splitOutput(output string, limit int) []string {
      var messages []string
      // Remove the 6 backticks and 2 newlines from the limit.
      codeLimit := limit - 8
      // While the output is larger than the limit, add limit-sized chunks to the slice.
      for len(output) > limit {
          messages = append(messages, "```\n"+output[:codeLimit]+"\n```")
          output = output[limit:]
      }
      // Add the remaining output to the slice.
      messages = append(messages, "```\n"+output+"\n```")
      return messages
  }
  \<close>
\<close>

definition fenced :: "string \<Rightarrow> string" where
  "fenced payload = fence @ LF @ payload @ LF @ fence"

text \<open>
  The loop, on the variables \<^verbatim>\<open>output\<close> and \<^verbatim>\<open>messages\<close> that it changes. \<^verbatim>\<open>codeLimit\<close> is
  assigned once, before the loop, and is \<open>limit - 8\<close> in every round.
\<close>

function splitOutputLoop :: "int \<Rightarrow> string \<Rightarrow> string list \<Rightarrow> panic + string list" where
  "splitOutputLoop limit output messages =
     (if int (length output) > limit
      then
        (case slice output 0 (limit - 8) of Inl e \<Rightarrow> Inl e | Inr chunk \<Rightarrow>
         (case slice output limit (int (length output)) of Inl e \<Rightarrow> Inl e | Inr rest \<Rightarrow>
            splitOutputLoop limit rest (messages @ [fenced chunk])))
      else Inr (messages @ [fenced output]))"
  by pat_completeness auto
termination
  by (relation "measure (\<lambda>(limit, output, messages). length output)")
     (auto simp: slice_def split: if_splits)

definition splitOutput :: "string \<Rightarrow> int \<Rightarrow> panic + string list" where
  "splitOutput output limit = splitOutputLoop limit output []"

text \<open>
  The payload of a fragment: what is left when the four characters of decoration at its
  start and the four at its end are taken off.
\<close>

definition payload :: "string \<Rightarrow> string" where
  "payload fragment = take (length fragment - 8) (drop 4 fragment)"

text \<open>
  The handlers of the \<^verbatim>\<open>Run Code\<close> and \<^verbatim>\<open>/run\<close> commands send one followup message per
  element of \<^verbatim>\<open>splitOutput(output, 500)\<close>, in order; these are the contents they send.
\<close>

definition followupContents :: "string \<Rightarrow> panic + string list" where
  "followupContents output = splitOutput output 500"

section \<open>The earlier bot: cropMessage\<close>

text \<open>
  \<^verbatim>\<open>
  const MSG_CHAR_LIM = 500 // to avoid getting rate limited

  func cropMessage(toCrop string, buffer int) (string, int) {
      if len(toCrop)+buffer < MSG_CHAR_LIM {
          return toCrop, 0
      }
      // lazy crop... (could crop extra characters which might not need to be cropped)
      end := MSG_CHAR_LIM - buffer - 22
      cropped := len(toCrop) - end
      end -= int(math.Log10(float64(cropped))) + 1 // remove estimate of number of characters that the number takes
      if toCrop[end-2] == '/' && toCrop[end-3] != '/' {
          end -= 2 // remove whatever is the last
      } else if toCrop[end-1] == '/' {
          end--
      }
      return toCrop[:end], len(toCrop) - end // recalculated cropped
  }
  \<close>
  \<^verbatim>\<open>int(math.Log10(float64(cropped)))\<close> is computed in floating point, which is not
  modelled: it is the parameter \<open>log10i\<close> of the model, so that a theorem about every
  \<open>log10i\<close> holds whatever the floating-point unit returns.
\<close>

definition MSG_CHAR_LIM :: int where
  "MSG_CHAR_LIM = 500"

text \<open>\<^verbatim>\<open>toCrop[end-2] == '/' && toCrop[end-3] != '/'\<close>, the right operand read only when the
  left one holds.\<close>

definition slashThenOther :: "string \<Rightarrow> int \<Rightarrow> panic + bool" where
  "slashThenOther toCrop end1 =
     (case index toCrop (end1 - 2) of
        Inl e \<Rightarrow> Inl e
      | Inr b2 \<Rightarrow>
          if b2 = CHR ''/''
          then (case index toCrop (end1 - 3) of
                  Inl e \<Rightarrow> Inl e
                | Inr b3 \<Rightarrow> Inr (b3 \<noteq> CHR ''/''))
          else Inr False)"

text \<open>The \<^verbatim>\<open>if\<close> ... \<^verbatim>\<open>else if\<close> statement: the value of \<^verbatim>\<open>end\<close> after it.\<close>

definition refineEnd :: "string \<Rightarrow> int \<Rightarrow> panic + int" where
  "refineEnd toCrop end1 =
     (case slashThenOther toCrop end1 of
        Inl e \<Rightarrow> Inl e
      | Inr first \<Rightarrow>
          if first then Inr (end1 - 2)
          else (case index toCrop (end1 - 1) of
                  Inl e \<Rightarrow> Inl e
                | Inr b1 \<Rightarrow> if b1 = CHR ''/'' then Inr (end1 - 1) else Inr end1))"

text \<open>\<^verbatim>\<open>return toCrop[:end], len(toCrop) - end\<close>.\<close>

definition cropAt :: "string \<Rightarrow> int \<Rightarrow> panic + (string \<times> int)" where
  "cropAt toCrop end2 =
     (case slice toCrop 0 end2 of
        Inl e \<Rightarrow> Inl e
      | Inr shown \<Rightarrow> Inr (shown, int (length toCrop) - end2))"

text \<open>
  The value of \<^verbatim>\<open>end\<close> after the three statements
  \<^verbatim>\<open>end := MSG_CHAR_LIM - buffer - 22\<close>, \<^verbatim>\<open>cropped := len(toCrop) - end\<close> and
  \<^verbatim>\<open>end -= int(math.Log10(float64(cropped))) + 1\<close>.
\<close>

definition estimatedEnd :: "(int \<Rightarrow> int) \<Rightarrow> string \<Rightarrow> int \<Rightarrow> int" where
  "estimatedEnd log10i toCrop buffer =
     (let end0 = MSG_CHAR_LIM - buffer - 22;
          cropped = int (length toCrop) - end0
      in end0 - (log10i cropped + 1))"

definition cropMessage :: "(int \<Rightarrow> int) \<Rightarrow> string \<Rightarrow> int \<Rightarrow> panic + (string \<times> int)" where
  "cropMessage log10i toCrop buffer =
     (if int (length toCrop) + buffer < MSG_CHAR_LIM then Inr (toCrop, 0)
      else
        case refineEnd toCrop (estimatedEnd log10i toCrop buffer) of
          Inl e \<Rightarrow> Inl e
        | Inr end2 \<Rightarrow> cropAt toCrop end2)"

text \<open>
  For the concrete runs below, the number \<open>\<lfloor>log\<^sub>1\<^sub>0 n\<rfloor>\<close> for \<open>n \<ge> 1\<close>, which
  \<^verbatim>\<open>int(math.Log10(float64(n)))\<close> is wherever the rounding of the floating-point logarithm
  does not cross an integer (as at 22, where the logarithm is about 1.34).
\<close>

function ilog10 :: "int \<Rightarrow> int" where
  "ilog10 n = (if n < 10 then 0 else 1 + ilog10 (n div 10))"
  by pat_completeness auto
termination
  by (relation "measure nat") auto

section \<open>Chunking: splitOutput\<close>

declare splitOutputLoop.simps [simp del]

lemma length_fenced: "length (fenced p) = length p + 8"
  by (simp add: fenced_def fence_def LF_def)

lemma payload_fenced: "payload (fenced p) = p"
  by (simp add: payload_def fenced_def fence_def LF_def)

text \<open>The three ways a round of the loop can go.\<close>

lemma splitOutputLoop_last:
  "int (length out) \<le> limit \<Longrightarrow>
   splitOutputLoop limit out messages = Inr (messages @ [fenced out])"
  by (subst splitOutputLoop.simps) simp

lemma splitOutputLoop_step:
  "8 \<le> limit \<Longrightarrow> limit < int (length out) \<Longrightarrow>
   splitOutputLoop limit out messages =
     splitOutputLoop limit (drop (nat limit) out)
       (messages @ [fenced (take (nat (limit - 8)) out)])"
  by (subst splitOutputLoop.simps) (simp add: slice_def)

lemma splitOutputLoop_panic:
  "limit < 8 \<Longrightarrow> limit < int (length out) \<Longrightarrow>
   splitOutputLoop limit out messages = Inl SliceBoundsOutOfRange"
  by (subst splitOutputLoop.simps) (simp add: slice_def)

text \<open>
  C1. Concatenating the payloads of the fragments gives the output back. The code does
  not do this: a round of the loop keeps the first \<open>limit - 8\<close> characters and then
  moves on by \<open>limit\<close>, so the 8 characters in between are lost. With the limit 500 of
  the caller, an output of 492 \<^verbatim>\<open>A\<close>, 8 \<^verbatim>\<open>B\<close> and one \<^verbatim>\<open>C\<close> comes back without any \<^verbatim>\<open>B\<close>.
\<close>

theorem splitOutput_loses_characters:
  "splitOutput (replicate 492 CHR ''A'' @ ''BBBBBBBB'' @ ''C'') 500 =
     Inr [fenced (replicate 492 CHR ''A''), fenced ''C'']
   \<and> concat (map payload [fenced (replicate 492 CHR ''A''), fenced ''C'']) =
     replicate 492 CHR ''A'' @ ''C''"
  by (simp add: splitOutput_def splitOutputLoop_last splitOutputLoop_step payload_fenced)

text \<open>
  C5. Every fragment, decoration included, is at most \<open>limit\<close> long. The code does not
  do this: the loop stops as soon as the rest is at most \<open>limit\<close> long, not
  \<open>limit - 8\<close>, and the last fragment adds 8 characters to it. An output of 500
  characters with the limit 500 is sent as one fragment of 508.
\<close>

theorem splitOutput_fragment_over_limit:
  "splitOutput (replicate 500 CHR ''A'') 500 = Inr [fenced (replicate 500 CHR ''A'')]
   \<and> length (fenced (replicate 500 CHR ''A'')) = 508"
  by (simp add: splitOutput_def splitOutputLoop_last length_fenced)

text \<open>
  The number of rounds. \<open>- (- n div limit)\<close> is \<open>n / limit\<close> rounded up.
\<close>

lemma neg_div_m1: "0 < n \<Longrightarrow> n \<le> limit \<Longrightarrow> - n div limit = (-1::int)"
  by (rule int_div_pos_eq [where r = "limit - n"]) auto

lemma ceil_base:
  "0 < limit \<Longrightarrow> 0 \<le> n \<Longrightarrow> n \<le> limit \<Longrightarrow> max 1 (- (- n div limit)) = (1::int)"
  by (cases "n = 0") (simp_all add: neg_div_m1)

lemma neg_div_shift: "0 < limit \<Longrightarrow> - (n - limit) div limit = - n div limit + (1::int)"
proof -
  assume a: "0 < limit"
  have "- (n - limit) = - n + 1 * limit" by simp
  then have "- (n - limit) div limit = (- n + 1 * limit) div limit" by simp
  also have "\<dots> = - n div limit + 1"
    using a by (subst div_mult_self1) auto
  finally show ?thesis .
qed

lemma ceil_step: "0 < limit \<Longrightarrow> limit < n \<Longrightarrow>
   max 1 (- (- (n - limit) div limit)) + 1 = max (1::int) (- (- n div limit))"
proof -
  assume a: "0 < limit" "limit < n"
  define q where "q = - n div limit"
  have e: "- (n - limit) div limit = q + 1"
    using a by (simp only: neg_div_shift q_def)
  have "- (n - limit) < 0" using a by simp
  then have "- (n - limit) div limit < 0"
    using a by (simp only: pos_imp_zdiv_neg_iff)
  with e have "q + 1 < 0" by simp
  then have "max 1 (- (q + 1)) + 1 = max 1 (- q)" by simp
  then show ?thesis by (simp only: e q_def)
qed

text \<open>
  What the loop returns when \<open>limit\<close> is at least 8: it appends to \<open>messages\<close>, it
  appends one fragment for every started run of \<open>limit\<close> characters (and one for the
  empty output), and all fragments but the last carry \<open>limit - 8\<close> characters.
\<close>

lemma splitOutputLoop_shape:
  "8 \<le> limit \<Longrightarrow>
   \<exists>frags. splitOutputLoop limit out messages = Inr (messages @ frags)
      \<and> int (length frags) = max 1 (- (- int (length out) div limit))
      \<and> (\<forall>i. Suc i < length frags \<longrightarrow> int (length (payload (frags ! i))) = limit - 8)"
proof (induction "length out" arbitrary: out messages rule: less_induct)
  case less
  show ?case
  proof (cases "int (length out) \<le> limit")
    case True
    with less.prems show ?thesis
      by (simp add: splitOutputLoop_last ceil_base)
  next
    case False
    let ?rest = "drop (nat limit) out"
    let ?chunk = "take (nat (limit - 8)) out"
    from False less.prems have lt: "length ?rest < length out" by simp
    from less.hyps [OF lt less.prems, of "messages @ [fenced ?chunk]"]
    obtain frags where
      run: "splitOutputLoop limit ?rest (messages @ [fenced ?chunk]) =
              Inr ((messages @ [fenced ?chunk]) @ frags)"
      and count: "int (length frags) = max 1 (- (- int (length ?rest) div limit))"
      and sizes: "\<forall>i. Suc i < length frags \<longrightarrow> int (length (payload (frags ! i))) = limit - 8"
      by blast
    have len_rest: "int (length ?rest) = int (length out) - limit"
      using False less.prems by simp
    have len_chunk: "int (length ?chunk) = limit - 8"
      using False less.prems by simp
    have "splitOutputLoop limit out messages = Inr (messages @ fenced ?chunk # frags)"
      using False less.prems run by (simp add: splitOutputLoop_step)
    moreover have "int (length (fenced ?chunk # frags)) = max 1 (- (- int (length out) div limit))"
      using count len_rest ceil_step [of limit "int (length out)"] False less.prems by simp
    moreover have "\<forall>i. Suc i < length (fenced ?chunk # frags) \<longrightarrow>
        int (length (payload ((fenced ?chunk # frags) ! i))) = limit - 8"
    proof (intro allI impI)
      fix i assume "Suc i < length (fenced ?chunk # frags)"
      then show "int (length (payload ((fenced ?chunk # frags) ! i))) = limit - 8"
        using sizes len_chunk by (cases i) (simp_all add: payload_fenced)
    qed
    ultimately show ?thesis by blast
  qed
qed

text \<open>
  C3, as the code has it. For a limit above 8, \<^verbatim>\<open>splitOutput\<close> returns
  \<open>\<lceil>len(output) / limit\<rceil>\<close> fragments, and one fragment for the empty output; every
  fragment but the last has a payload of exactly \<open>limit - 8\<close> characters. (For 1200
  characters and the limit 500 these are 3 fragments, the first two with 492 characters
  of payload.) Nothing is said here about the length of the last payload.
\<close>

theorem splitOutput_fragment_count:
  assumes "8 < limit"
  shows "\<exists>frags. splitOutput out limit = Inr frags
    \<and> int (length frags) = max 1 \<lceil>real (length out) / real_of_int limit\<rceil>
    \<and> (\<forall>i. Suc i < length frags \<longrightarrow> int (length (payload (frags ! i))) = limit - 8)"
proof -
  have "\<lceil>real (length out) / real_of_int limit\<rceil> = - (- int (length out) div limit)"
    using ceiling_divide_eq_div [of "int (length out)" limit] by simp
  moreover from assms have "8 \<le> limit" by simp
  ultimately show ?thesis
    using splitOutputLoop_shape [of limit out "[]"] by (simp add: splitOutput_def)
qed

text \<open>The run of the claim: 1200 characters, limit 500.\<close>

theorem splitOutput_fragment_count_witness:
  "(8::int) < 500 \<and> (\<exists>frags. splitOutput (replicate 1200 CHR ''A'') 500 = Inr frags
     \<and> length frags = 3
     \<and> length (payload (frags ! 0)) = 492 \<and> length (payload (frags ! 1)) = 492)"
proof -
  have h: "(8::int) < 500" by simp
  from splitOutput_fragment_count [OF h, of "replicate 1200 CHR ''A''"]
  obtain frags where
    run: "splitOutput (replicate 1200 CHR ''A'') 500 = Inr frags"
    and count: "int (length frags) = max 1 \<lceil>real (length (replicate 1200 CHR ''A'')) / real_of_int 500\<rceil>"
    and sizes: "\<forall>i. Suc i < length frags \<longrightarrow> int (length (payload (frags ! i))) = 500 - 8"
    by blast
  from count have three: "length frags = 3" by simp
  with sizes have "int (length (payload (frags ! 0))) = 500 - 8"
    and "int (length (payload (frags ! 1))) = 500 - 8" by simp_all
  with run three h show ?thesis by simp
qed

text \<open>
  The claim as it was stated fails twice. On 1200 characters with the limit 500 the
  payloads are 492, 492 and 200 characters long, not 492, 492 and 216; and the empty
  output gives one fragment where \<open>\<lceil>0 / 500\<rceil>\<close> is 0.
\<close>

theorem splitOutput_fragment_count_counterexample:
  "splitOutput (replicate 1200 CHR ''A'') 500 =
     Inr [fenced (replicate 492 CHR ''A''), fenced (replicate 492 CHR ''A''),
          fenced (replicate 200 CHR ''A'')]
   \<and> map (\<lambda>f. length (payload f))
        [fenced (replicate 492 CHR ''A''), fenced (replicate 492 CHR ''A''),
         fenced (replicate 200 CHR ''A'')] = [492, 492, 200]
   \<and> splitOutput [] 500 = Inr [fenced []]
   \<and> \<lceil>real (length ([] :: string)) / real_of_int 500\<rceil> = 0"
  by (simp add: splitOutput_def splitOutputLoop_last splitOutputLoop_step payload_fenced)

text \<open>
  C10, as the code has it. \<^verbatim>\<open>splitOutput\<close> returns a list with at least one fragment
  whenever the limit is at least 8 or the output is no longer than the limit; for the
  empty output and a limit that is not negative the list is the one fragment of the 8
  characters of decoration, and with the limit 500 of the handlers that fragment is
  what they send.
\<close>

theorem splitOutput_nonempty:
  "(8 \<le> limit \<or> int (length out) \<le> limit \<longrightarrow>
      (\<exists>frags. splitOutput out limit = Inr frags \<and> frags \<noteq> []))
   \<and> (0 \<le> limit \<longrightarrow> splitOutput [] limit = Inr [''```\<newline>\<newline>```''])
   \<and> followupContents [] = Inr [''```\<newline>\<newline>```'']"
proof (intro conjI impI)
  assume a: "8 \<le> limit \<or> int (length out) \<le> limit"
  show "\<exists>frags. splitOutput out limit = Inr frags \<and> frags \<noteq> []"
  proof (cases "int (length out) \<le> limit")
    case True
    then show ?thesis by (simp add: splitOutput_def splitOutputLoop_last)
  next
    case False
    with a have "8 \<le> limit" by simp
    from splitOutputLoop_shape [OF this, of out "[]"]
    obtain frags where "splitOutputLoop limit out [] = Inr frags"
      and "int (length frags) = max 1 (- (- int (length out) div limit))" by auto
    moreover from this have "frags \<noteq> []" by auto
    ultimately show ?thesis by (simp add: splitOutput_def)
  qed
next
  assume "0 \<le> limit"
  then show "splitOutput [] limit = Inr [''```\<newline>\<newline>```'']"
    by (simp add: splitOutput_def splitOutputLoop_last fenced_def fence_def LF_def)
next
  show "followupContents [] = Inr [''```\<newline>\<newline>```'']"
    by (simp add: followupContents_def splitOutput_def splitOutputLoop_last fenced_def fence_def LF_def)
qed

text \<open>A run with the limit 500.\<close>

theorem splitOutput_nonempty_witness:
  "((8::int) \<le> 500 \<or> int (length ''hello'') \<le> 500)
   \<and> (\<exists>frags. splitOutput ''hello'' 500 = Inr frags \<and> frags \<noteq> [])
   \<and> (0::int) \<le> 500 \<and> splitOutput [] 500 = Inr [''```\<newline>\<newline>```'']"
  using splitOutput_nonempty [of 500 "''hello''"] by simp

text \<open>
  For every limit the claim fails: with a limit below 8 and an output longer than the
  limit the first round of the loop evaluates \<^verbatim>\<open>output[:limit-8]\<close> with a negative bound,
  and the function panics. A negative limit does this to the empty output too.
\<close>

theorem splitOutput_nonempty_counterexample:
  "splitOutput [] (- 1) = Inl SliceBoundsOutOfRange
   \<and> splitOutput ''abc'' 2 = Inl SliceBoundsOutOfRange"
  by (simp add: splitOutput_def splitOutputLoop_panic)

section \<open>Reading a message: lines, fences, language\<close>

subsection \<open>Lines\<close>

text \<open>Splitting at line feeds, one character at a time.\<close>

lemma Split_LF_Cons:
  "Split (c # cs) LF =
     (if c = CHR 0x0A then [] # Split cs LF
      else (case Split cs LF of [] \<Rightarrow> [[c]] | l # ls \<Rightarrow> (c # l) # ls))"
  by (auto simp: LF_def)

lemma Split_not_Nil: "Split s sep \<noteq> []"
  by (induction s sep rule: Split.induct) (auto split: list.splits)

text \<open>Joining the lines with line feeds gives the text back.\<close>

lemma Join_Cons: "ys \<noteq> [] \<Longrightarrow> Join (x # ys) sep = x @ sep @ Join ys sep"
  by (cases ys) simp_all

lemma Join_Split: "Join (Split s LF) LF = s"
proof (induction s)
  case Nil
  show ?case by simp
next
  case (Cons c cs)
  obtain l ls where sp: "Split cs LF = l # ls"
    using Split_not_Nil [of cs LF] by (cases "Split cs LF") auto
  show ?case
  proof (cases "c = CHR 0x0A")
    case True
    then have "Split (c # cs) LF = [] # l # ls"
      using sp by (simp add: Split_LF_Cons del: Split.simps(2))
    then have "Join (Split (c # cs) LF) LF = LF @ Join (Split cs LF) LF"
      using sp by simp
    with Cons True show ?thesis by (simp add: LF_def)
  next
    case False
    with Cons sp show ?thesis
      by (cases ls) (simp_all add: Split_LF_Cons del: Split.simps(2))
  qed
qed

lemma Split_lines_no_LF: "l \<in> set (Split s LF) \<Longrightarrow> CHR 0x0A \<notin> set l"
proof (induction s arbitrary: l)
  case Nil
  then show ?case by simp
next
  case (Cons c cs)
  then show ?case
    by (auto simp: Split_LF_Cons simp del: Split.simps(2) split: if_splits list.splits)
qed

subsection \<open>The slices and indices the two functions take\<close>

lemma slice_middle:
  "rest \<noteq> [] \<Longrightarrow> slice (first # rest) 1 (int (length rest)) = Inr (butlast rest)"
  by (cases rest rule: rev_cases) (simp_all add: slice_def)

lemma slice_tag: "slice (fence @ tag) 3 (int (length (fence @ tag))) = Inr tag"
  by (simp add: slice_def fence_def)

lemma index_first: "index (c0 # rest) 0 = Inr c0"
  by (simp add: index_def)

lemma index_last: "c \<noteq> [] \<Longrightarrow> index c (int (length c) - 1) = Inr (last c)"
proof -
  assume "c \<noteq> []"
  then have "0 < length c" by simp
  then have "nat (int (length c) - 1) = length c - 1" by simp
  with \<open>c \<noteq> []\<close> show ?thesis
    by (simp add: index_def last_conv_nth)
qed

subsection \<open>isCodeMessage\<close>

text \<open>\<^verbatim>\<open>isCodeMessage\<close> on a message of at least two lines.\<close>

lemma isCodeMessage_two_lines:
  assumes c: "messageLines m = c0 # rest" and rest: "rest \<noteq> []"
  shows "isCodeMessage m =
     (if 3 \<le> length c0 then Inr (take 3 c0 = fence \<and> last rest = fence)
      else Inl SliceBoundsOutOfRange)"
proof -
  have two: "\<not> int (length (c0 # rest)) < 2"
    using rest by (cases rest) auto
  have l: "index (c0 # rest) (int (length rest)) = Inr (last rest)"
    using index_last [of "c0 # rest"] rest by simp
  have s: "slice c0 0 3 = (if 3 \<le> length c0 then Inr (take 3 c0) else Inl SliceBoundsOutOfRange)"
    by (simp add: slice_def)
  show ?thesis
    using two by (simp add: isCodeMessage_def Let_def c rest l s index_first)
qed

lemma isCodeMessage_one_line:
  "messageLines m = [c0] \<Longrightarrow> isCodeMessage m = Inr False"
  by (simp add: isCodeMessage_def)

text \<open>
  The messages on which \<^verbatim>\<open>isCodeMessage\<close> returns true: those whose first line starts
  with the fence and whose last line, not the first, is the fence.
\<close>

lemma isCodeMessage_lines:
  "isCodeMessage m = Inr True \<longleftrightarrow>
     (\<exists>tag body. messageLines m = (fence @ tag) # body @ [fence])"
proof
  assume a: "isCodeMessage m = Inr True"
  obtain c0 rest where c: "messageLines m = c0 # rest"
    using Split_not_Nil [of "ReplaceAll (Content m) CRLF LF" LF]
    by (cases "messageLines m") (auto simp: messageLines_def)
  from a c have rest: "rest \<noteq> []"
    by (auto simp: isCodeMessage_one_line)
  from a have s: "3 \<le> length c0" "take 3 c0 = fence" and l: "last rest = fence"
    by (auto simp: isCodeMessage_two_lines [OF c rest] split: if_splits)
  from s have "c0 = fence @ drop 3 c0" by (metis append_take_drop_id)
  moreover from rest l have "rest = butlast rest @ [fence]" by (metis append_butlast_last_id)
  ultimately have "messageLines m = (fence @ drop 3 c0) # butlast rest @ [fence]" using c by simp
  then show "\<exists>tag body. messageLines m = (fence @ tag) # body @ [fence]"
    by blast
next
  assume "\<exists>tag body. messageLines m = (fence @ tag) # body @ [fence]"
  then obtain tag body where c: "messageLines m = (fence @ tag) # body @ [fence]" by blast
  have "body @ [fence] \<noteq> []" by simp
  from isCodeMessage_two_lines [OF c this] show "isCodeMessage m = Inr True"
    by (simp add: fence_def)
qed

text \<open>
  C2. \<^verbatim>\<open>isCodeMessage\<close> returns a boolean and never raises. The code does not do this:
  \<^verbatim>\<open>c[0][:3]\<close> is evaluated for every message of two lines or more, and it panics when
  the first line has fewer than three bytes (\<open>isCodeMessage_two_lines\<close>). The \<^verbatim>\<open>/run\<close>
  handler calls the function on each of the last ten messages of the channel, so a
  message such as the two lines \<^verbatim>\<open>hi\<close> and \<^verbatim>\<open>there\<close> is enough.
\<close>

theorem isCodeMessage_panics:
  "isCodeMessage \<lparr>Content = ''hi\<newline>there''\<rparr> = Inl SliceBoundsOutOfRange"
  by (simp add: isCodeMessage_def messageLines_def CRLF_def LF_def index_def slice_def)

subsection \<open>EqualFold\<close>

text \<open>The test on two ASCII bytes is symmetric and, with equality, transitive.\<close>

lemma byte_eq_iff: "byte a = byte b \<longleftrightarrow> a = b"
  by (simp add: byte_def)

lemma upperLower_sym: "upperLower a b = upperLower b a"
  by (simp add: upperLower_def min.commute max.commute)

lemma ascii_fold_trans:
  "a = b \<or> upperLower a b \<Longrightarrow> b = c \<or> upperLower b c \<Longrightarrow> a = c \<or> upperLower a c"
  by (auto simp: upperLower_def Let_def min_def max_def byte_eq_iff [symmetric] split: if_splits)

text \<open>On ASCII strings the Unicode part is not reached.\<close>

lemma EqualFold_ascii:
  "\<forall>c \<in> set s. byte c < 128 \<Longrightarrow> \<forall>c \<in> set t. byte c < 128 \<Longrightarrow>
   EqualFold U s t = EqualFold U' s t"
  by (induction U s t rule: EqualFold.induct) auto

text \<open>
  With the Unicode part \<open>bytewise\<close> the relation is an equivalence, as it is with the
  tables of the library.
\<close>

lemma EqualFold_bytewise_sym: "EqualFold bytewise s t \<Longrightarrow> EqualFold bytewise t s"
proof (induction s arbitrary: t)
  case Nil
  then show ?case by (cases t) auto
next
  case (Cons x s)
  then obtain y t' where "t = y # t'" by (cases t) auto
  with Cons show ?case
    by (auto simp: bytewise_def upperLower_sym split: if_splits)
qed

lemma EqualFold_bytewise_refl: "EqualFold bytewise s s"
  by (induction s) (auto simp: bytewise_def)

lemma EqualFold_bytewise_trans:
  "EqualFold bytewise s t \<Longrightarrow> EqualFold bytewise t u \<Longrightarrow> EqualFold bytewise s u"
proof (induction s arbitrary: t u)
  case Nil
  then show ?case by (cases t; cases u) auto
next
  case (Cons x s)
  from Cons.prems obtain y t' where t: "t = y # t'" by (cases t) auto
  from Cons.prems t obtain z u' where u: "u = z # u'" by (cases u) auto
  show ?case
  proof (cases "128 \<le> byte x \<or> 128 \<le> byte y")
    case True
    with Cons.prems t have "x # s = t" by (simp add: bytewise_def)
    with Cons.prems show ?thesis by simp
  next
    case xy: False
    show ?thesis
    proof (cases "128 \<le> byte z")
      case True
      with Cons.prems t u xy have "t = u" by (simp add: bytewise_def)
      with Cons.prems show ?thesis by simp
    next
      case False
      from Cons.prems t u xy False
      have 1: "x = y \<or> upperLower x y" and 2: "EqualFold bytewise s t'"
        and 3: "y = z \<or> upperLower y z" and 4: "EqualFold bytewise t' u'"
        by (auto split: if_splits)
      from 1 3 have "x = z \<or> upperLower x z" by (rule ascii_fold_trans)
      moreover from 2 4 have "EqualFold bytewise s u'" by (rule Cons.IH)
      ultimately show ?thesis using u xy False by auto
    qed
  qed
qed

subsection \<open>getLanguageAndCodeFromMessage\<close>

lemma rangeAliases_iff:
  "rangeAliases U j test \<longleftrightarrow> (\<exists>k \<in> set j. EqualFold U k test)"
  by (induction j) auto

text \<open>
  On lines that start with a fenced first line and have a second line, no slice of the
  loop panics, and the loop returns the language of \<open>resolveLanguage\<close> and the lines
  between the first and the last, joined.
\<close>

lemma rangeLanguageMappings_resolve:
  "rest \<noteq> [] \<Longrightarrow>
   rangeLanguageMappings U reg ((fence @ tag) # rest) =
     Inr (resolveLanguage U reg tag, Join (butlast rest) LF)"
proof (induction reg)
  case Nil
  then show ?case by (simp add: slice_middle)
next
  case (Cons entry reg)
  obtain i j where "entry = (i, j)" by (cases entry)
  with Cons show ?case
    using slice_tag [of tag] by (simp add: slice_middle index_def del: length_append)
qed

lemma getLanguageAndCodeFromMessage_resolve:
  "messageLines m = (fence @ tag) # rest \<Longrightarrow> rest \<noteq> [] \<Longrightarrow>
   getLanguageAndCodeFromMessage U reg m =
     Inr (resolveLanguage U reg tag, Join (butlast rest) LF)"
  by (simp add: getLanguageAndCodeFromMessage_def rangeLanguageMappings_resolve)

subsection \<open>Which entry wins\<close>

lemma resolveLanguage_first_match:
  assumes "\<forall>(i, j) \<in> set before. \<not> EqualFold U tag i \<and> (\<forall>k \<in> set j. \<not> EqualFold U k tag)"
    and "EqualFold U tag name \<or> (\<exists>k \<in> set aliases. EqualFold U k tag)"
  shows "resolveLanguage U (before @ (name, aliases) # after) tag = name"
  using assms by (induction before) (auto simp: rangeAliases_iff)

lemma resolveLanguage_no_match:
  assumes "\<forall>(i, j) \<in> set reg. \<not> EqualFold U tag i \<and> (\<forall>k \<in> set j. \<not> EqualFold U k tag)"
  shows "resolveLanguage U reg tag = []"
  using assms by (induction reg) (auto simp: rangeAliases_iff)

text \<open>Either no entry matches, or the registry splits at the first entry that does.\<close>

lemma registry_split:
  "(\<forall>(i, j) \<in> set reg. \<not> EqualFold U tag i \<and> (\<forall>k \<in> set j. \<not> EqualFold U k tag))
   \<or> (\<exists>before name aliases after. reg = before @ (name, aliases) # after
        \<and> (EqualFold U tag name \<or> (\<exists>k \<in> set aliases. EqualFold U k tag))
        \<and> (\<forall>(i, j) \<in> set before. \<not> EqualFold U tag i \<and> (\<forall>k \<in> set j. \<not> EqualFold U k tag)))"
proof (induction reg)
  case Nil
  show ?case by simp
next
  case (Cons entry reg)
  obtain n a where e: "entry = (n, a)" by (cases entry)
  show ?case
  proof (cases "EqualFold U tag n \<or> (\<exists>k \<in> set a. EqualFold U k tag)")
    case True
    then have "entry # reg = [] @ (n, a) # reg
        \<and> (EqualFold U tag n \<or> (\<exists>k \<in> set a. EqualFold U k tag))
        \<and> (\<forall>(i, j) \<in> set []. \<not> EqualFold U tag i \<and> (\<forall>k \<in> set j. \<not> EqualFold U k tag))"
      using e by simp
    then show ?thesis by blast
  next
    case False
    from Cons show ?thesis
    proof
      assume "\<forall>(i, j) \<in> set reg. \<not> EqualFold U tag i \<and> (\<forall>k \<in> set j. \<not> EqualFold U k tag)"
      with False e show ?thesis by auto
    next
      assume "\<exists>before name aliases after. reg = before @ (name, aliases) # after
        \<and> (EqualFold U tag name \<or> (\<exists>k \<in> set aliases. EqualFold U k tag))
        \<and> (\<forall>(i, j) \<in> set before. \<not> EqualFold U tag i \<and> (\<forall>k \<in> set j. \<not> EqualFold U k tag))"
      then obtain before name aliases after where
        r: "reg = before @ (name, aliases) # after"
        and m: "EqualFold U tag name \<or> (\<exists>k \<in> set aliases. EqualFold U k tag)"
        and b: "\<forall>(i, j) \<in> set before. \<not> EqualFold U tag i \<and> (\<forall>k \<in> set j. \<not> EqualFold U k tag)"
        by blast
      from r e have "entry # reg = ((n, a) # before) @ (name, aliases) # after" by simp
      moreover from b False
      have "\<forall>(i, j) \<in> set ((n, a) # before).
          \<not> EqualFold U tag i \<and> (\<forall>k \<in> set j. \<not> EqualFold U k tag)"
        by auto
      ultimately show ?thesis using m by blast
    qed
  qed
qed

text \<open>
  C4, as the code has it. The loop visits the entries once, and in each entry it
  compares the tag with the canonical name and then with the aliases. So the language
  returned is the canonical name of the first entry, in the order of the visit, that
  the tag matches under \<^verbatim>\<open>strings.EqualFold\<close> by its name or by one of its aliases. A
  match of a canonical name wins over the aliases of its own and of later entries, not
  over an alias of an earlier entry; when the tag is no canonical name, the first entry
  with a matching alias is returned. This holds whatever the Unicode part of
  \<^verbatim>\<open>EqualFold\<close> does.
\<close>

theorem first_matching_entry_wins:
  assumes "messageLines m = (fence @ tag) # rest" and "rest \<noteq> []"
    and "\<forall>(i, j) \<in> set before.
           \<not> EqualFold hasUnicode tag i \<and> (\<forall>k \<in> set j. \<not> EqualFold hasUnicode k tag)"
    and "EqualFold hasUnicode tag name \<or> (\<exists>k \<in> set aliases. EqualFold hasUnicode k tag)"
  shows "getLanguageAndCodeFromMessage hasUnicode (before @ (name, aliases) # after) m =
           Inr (name, Join (butlast rest) LF)"
proof -
  from assms(1,2)
  have "getLanguageAndCodeFromMessage hasUnicode (before @ (name, aliases) # after) m =
          Inr (resolveLanguage hasUnicode (before @ (name, aliases) # after) tag,
               Join (butlast rest) LF)"
    by (rule getLanguageAndCodeFromMessage_resolve)
  moreover from assms(3,4)
  have "resolveLanguage hasUnicode (before @ (name, aliases) # after) tag = name"
    by (rule resolveLanguage_first_match)
  ultimately show ?thesis by simp
qed

text \<open>For the evaluation of \<open>EqualFold\<close> on the ASCII strings of the runs.\<close>

lemmas fold_eval = byte_def upperLower_def

text \<open>
  The claim as it was stated fails: \<^verbatim>\<open>basic\<close> is a canonical name, but when the entry
  \<^verbatim>\<open>freebasic\<close> with its alias \<^verbatim>\<open>basic\<close> is visited first, the tag \<^verbatim>\<open>basic\<close> resolves to
  \<^verbatim>\<open>freebasic\<close>.
\<close>

theorem first_matching_entry_wins_counterexample:
  "getLanguageAndCodeFromMessage bytewise [(''freebasic'', [''basic'']), (''basic'', [])]
     \<lparr>Content = ''```basic\<newline>PRINT 1\<newline>```''\<rparr> = Inr (''freebasic'', ''PRINT 1'')
   \<and> EqualFold bytewise ''basic'' ''basic''"
  by (simp add: getLanguageAndCodeFromMessage_def messageLines_def CRLF_def LF_def
      index_def slice_def fold_eval)

text \<open>A run: the alias \<^verbatim>\<open>py3\<close> of the second entry, before a third entry named \<^verbatim>\<open>py3\<close>.\<close>

theorem first_matching_entry_wins_witness:
  "getLanguageAndCodeFromMessage bytewise
     [(''c'', [''h'']), (''python'', [''py'', ''py3'']), (''py3'', [])]
     \<lparr>Content = ''```PY3\<newline>print(1)\<newline>```''\<rparr> = Inr (''python'', ''print(1)'')"
proof -
  let ?m = "\<lparr>Content = ''```PY3\<newline>print(1)\<newline>```''\<rparr>"
  have h1: "messageLines ?m = (fence @ ''PY3'') # [''print(1)'', ''```'']"
    by (simp add: messageLines_def CRLF_def LF_def fence_def)
  have h2: "[''print(1)'', ''```''] \<noteq> []" by simp
  have h3: "\<forall>(i, j) \<in> set [(''c'', [''h''])].
      \<not> EqualFold bytewise ''PY3'' i \<and> (\<forall>k \<in> set j. \<not> EqualFold bytewise k ''PY3'')"
    by (simp add: fold_eval)
  have h4: "EqualFold bytewise ''PY3'' ''python''
      \<or> (\<exists>k \<in> set [''py'', ''py3'']. EqualFold bytewise k ''PY3'')"
    by (simp add: fold_eval)
  from first_matching_entry_wins [OF h1 h2 h3 h4, of "[(''py3'', [])]"]
  show ?thesis by simp
qed

subsection \<open>Letter case\<close>

text \<open>
  \<^verbatim>\<open>strings.EqualFold\<close> is an equivalence relation on strings. Where it is symmetric and
  transitive, two tags that it takes for equal match the same names and aliases.
\<close>

lemma rangeAliases_fold:
  assumes "\<And>s t u. EqualFold U s t \<Longrightarrow> EqualFold U t u \<Longrightarrow> EqualFold U s u"
    and "\<And>s t. EqualFold U s t \<Longrightarrow> EqualFold U t s"
    and "EqualFold U tag tag'"
  shows "rangeAliases U j tag = rangeAliases U j tag'"
  unfolding rangeAliases_iff using assms by blast

lemma resolveLanguage_fold:
  assumes trans: "\<And>s t u. EqualFold U s t \<Longrightarrow> EqualFold U t u \<Longrightarrow> EqualFold U s u"
    and sym: "\<And>s t. EqualFold U s t \<Longrightarrow> EqualFold U t s"
    and eq: "EqualFold U tag tag'"
  shows "resolveLanguage U reg tag = resolveLanguage U reg tag'"
proof (induction reg)
  case Nil
  show ?case by simp
next
  case (Cons entry reg)
  obtain i j where e: "entry = (i, j)" by (cases entry)
  have "EqualFold U tag i = EqualFold U tag' i"
    using trans sym eq by blast
  moreover have "rangeAliases U j tag = rangeAliases U j tag'"
    using trans sym eq by (rule rangeAliases_fold)
  ultimately show ?case using Cons e by simp
qed

lemma stringInSlice_iff: "stringInSlice s a \<longleftrightarrow> s \<in> set a"
  by (induction a) auto

text \<open>
  C8, as the code has it. The tag of a fenced message is resolved without regard to
  letter case: two messages whose tags are equal under \<^verbatim>\<open>strings.EqualFold\<close>, and which
  are the same otherwise, give the same result, and the tag \<^verbatim>\<open>PyThOn\<close> resolves to
  \<^verbatim>\<open>python\<close>. Of \<^verbatim>\<open>EqualFold\<close> this uses that it is symmetric and transitive, as the
  folding of the library is. The language option of the \<^verbatim>\<open>/run\<close> command is not resolved
  at all: once a code message is found, the handler rejects the option as not
  supported unless it is one of the canonical names byte for byte, and otherwise
  passes it to \<^verbatim>\<open>Exec\<close> as it is.
\<close>

theorem resolution_case_insensitive:
  assumes "\<And>s t u. EqualFold hasUnicode s t \<Longrightarrow> EqualFold hasUnicode t u \<Longrightarrow>
             EqualFold hasUnicode s u"
    and "\<And>s t. EqualFold hasUnicode s t \<Longrightarrow> EqualFold hasUnicode t s"
  shows
  "(messageLines m = (fence @ tag) # rest \<and> messageLines m' = (fence @ tag') # rest
      \<and> rest \<noteq> [] \<and> EqualFold hasUnicode tag tag' \<longrightarrow>
      getLanguageAndCodeFromMessage hasUnicode reg m' =
        getLanguageAndCodeFromMessage hasUnicode reg m)
   \<and> getLanguageAndCodeFromMessage hasUnicode [(''python'', [''py'', ''py3''])]
        \<lparr>Content = ''```PyThOn\<newline>print(1)\<newline>```''\<rparr> = Inr (''python'', ''print(1)'')
   \<and> (rangeMessages messages = Inr found \<and> Content found \<noteq> []
      \<and> getLanguageAndCodeFromMessage hasUnicode reg found = Inr (lang, code) \<longrightarrow>
      runHandler hasUnicode reg languages messages (opt # opts) =
        Inr (if opt \<notin> set languages then NotSupported opt
             else if opt = [] then NoLanguage
             else Exec opt code))"
proof (intro conjI impI)
  assume a: "messageLines m = (fence @ tag) # rest \<and> messageLines m' = (fence @ tag') # rest
      \<and> rest \<noteq> [] \<and> EqualFold hasUnicode tag tag'"
  then have "resolveLanguage hasUnicode reg tag = resolveLanguage hasUnicode reg tag'"
    using assms by (intro resolveLanguage_fold) blast+
  with a show "getLanguageAndCodeFromMessage hasUnicode reg m' =
      getLanguageAndCodeFromMessage hasUnicode reg m"
    by (simp add: getLanguageAndCodeFromMessage_resolve)
next
  show "getLanguageAndCodeFromMessage hasUnicode [(''python'', [''py'', ''py3''])]
        \<lparr>Content = ''```PyThOn\<newline>print(1)\<newline>```''\<rparr> = Inr (''python'', ''print(1)'')"
    by (simp add: getLanguageAndCodeFromMessage_def messageLines_def CRLF_def LF_def
        index_def slice_def fold_eval)
next
  assume "rangeMessages messages = Inr found \<and> Content found \<noteq> []
      \<and> getLanguageAndCodeFromMessage hasUnicode reg found = Inr (lang, code)"
  then show "runHandler hasUnicode reg languages messages (opt # opts) =
        Inr (if opt \<notin> set languages then NotSupported opt
             else if opt = [] then NoLanguage
             else Exec opt code)"
    by (simp add: runHandler_def stringInSlice_iff)
qed

text \<open>
  The claim as it was stated fails for the option: \<^verbatim>\<open>PyThOn\<close> differs from the
  canonical name \<^verbatim>\<open>python\<close> in letter case only; the handler runs the code with the
  option \<^verbatim>\<open>python\<close> and answers that the language is not supported with the option
  \<^verbatim>\<open>PyThOn\<close>.
\<close>

theorem resolution_case_insensitive_counterexample:
  "EqualFold bytewise ''PyThOn'' ''python''
   \<and> runHandler bytewise [(''python'', [''py'', ''py3''])] [''python'']
        [\<lparr>Content = ''```\<newline>print(1)\<newline>```''\<rparr>] [''python'']
      = Inr (Exec ''python'' ''print(1)'')
   \<and> runHandler bytewise [(''python'', [''py'', ''py3''])] [''python'']
        [\<lparr>Content = ''```\<newline>print(1)\<newline>```''\<rparr>] [''PyThOn'']
      = Inr (NotSupported ''PyThOn'')"
  by (simp add: runHandler_def isCodeMessage_def getLanguageAndCodeFromMessage_def
      messageLines_def CRLF_def LF_def fence_def index_def slice_def fold_eval)

text \<open>
  A run: the tags \<^verbatim>\<open>python\<close> and \<^verbatim>\<open>PyThOn\<close> against a registry of two entries, and
  the option \<^verbatim>\<open>c\<close> for a code message tagged \<^verbatim>\<open>py\<close> that follows a plain message.
\<close>

theorem resolution_case_insensitive_witness:
  "messageLines \<lparr>Content = ''```python\<newline>print(1)\<newline>```''\<rparr> =
     (fence @ ''python'') # [''print(1)'', ''```'']
   \<and> messageLines \<lparr>Content = ''```PyThOn\<newline>print(1)\<newline>```''\<rparr> =
     (fence @ ''PyThOn'') # [''print(1)'', ''```'']
   \<and> EqualFold bytewise ''python'' ''PyThOn''
   \<and> getLanguageAndCodeFromMessage bytewise [(''c'', []), (''python'', [''py''])]
         \<lparr>Content = ''```PyThOn\<newline>print(1)\<newline>```''\<rparr>
     = getLanguageAndCodeFromMessage bytewise [(''c'', []), (''python'', [''py''])]
         \<lparr>Content = ''```python\<newline>print(1)\<newline>```''\<rparr>
   \<and> runHandler bytewise [(''c'', []), (''python'', [''py''])] [''c'', ''python'']
        [\<lparr>Content = ''hello''\<rparr>, \<lparr>Content = ''```py\<newline>print(1)\<newline>```''\<rparr>] [''c'']
     = Inr (Exec ''c'' ''print(1)'')"
proof -
  let ?m = "\<lparr>Content = ''```python\<newline>print(1)\<newline>```''\<rparr>"
  let ?m' = "\<lparr>Content = ''```PyThOn\<newline>print(1)\<newline>```''\<rparr>"
  let ?f = "\<lparr>Content = ''```py\<newline>print(1)\<newline>```''\<rparr>"
  let ?reg = "[(''c'', []), (''python'', [''py''])]"
  note inst = resolution_case_insensitive [where hasUnicode = bytewise,
      OF EqualFold_bytewise_trans EqualFold_bytewise_sym]
  have h1: "messageLines ?m = (fence @ ''python'') # [''print(1)'', ''```'']"
    by (simp add: messageLines_def CRLF_def LF_def fence_def)
  have h2: "messageLines ?m' = (fence @ ''PyThOn'') # [''print(1)'', ''```'']"
    by (simp add: messageLines_def CRLF_def LF_def fence_def)
  have h3: "EqualFold bytewise ''python'' ''PyThOn''"
    by (simp add: fold_eval)
  have h4: "rangeMessages [\<lparr>Content = ''hello''\<rparr>, ?f] = Inr ?f"
    by (simp add: isCodeMessage_def messageLines_def CRLF_def LF_def fence_def index_def slice_def)
  have h5: "Content ?f \<noteq> []" by simp
  have h6: "getLanguageAndCodeFromMessage bytewise ?reg ?f = Inr (''python'', ''print(1)'')"
    by (simp add: getLanguageAndCodeFromMessage_def messageLines_def CRLF_def LF_def
        index_def slice_def fold_eval)
  from inst [where m = ?m and tag = "''python''" and rest = "[''print(1)'', ''```'']"
      and m' = ?m' and tag' = "''PyThOn''" and reg = ?reg] h1 h2 h3
  have a: "getLanguageAndCodeFromMessage bytewise ?reg ?m' =
      getLanguageAndCodeFromMessage bytewise ?reg ?m"
    by simp
  from inst [where messages = "[\<lparr>Content = ''hello''\<rparr>, ?f]" and found = ?f
      and reg = ?reg and lang = "''python''" and code = "''print(1)''"
      and languages = "[''c'', ''python'']" and opt = "''c''" and opts = "[]"] h4 h5 h6
  have b: "runHandler bytewise ?reg [''c'', ''python''] [\<lparr>Content = ''hello''\<rparr>, ?f] [''c'']
      = Inr (Exec ''c'' ''print(1)'')"
    by simp
  from h1 h2 h3 a b show ?thesis by blast
qed

subsection \<open>The text between the fences\<close>

lemma Join_snoc: "ys \<noteq> [] \<Longrightarrow> Join (ys @ [x]) sep = Join ys sep @ sep @ x"
  by (induction ys sep rule: Join.induct) simp_all

text \<open>A text splits at its first line feed in one way only.\<close>

lemma first_line_unique:
  "CHR 0x0A \<notin> set l \<Longrightarrow> CHR 0x0A \<notin> set l' \<Longrightarrow>
   l @ LF @ r = l' @ LF @ r' \<Longrightarrow> l = l' \<and> r = r'"
proof (induction l arbitrary: l')
  case Nil
  then show ?case by (cases l') (auto simp: LF_def)
next
  case (Cons a l)
  then show ?case by (cases l') (auto simp: LF_def)
qed

text \<open>
  C9, as the code has it. For every message that \<^verbatim>\<open>isCodeMessage\<close> accepts, the
  normalised text is the fence, a tag without a line feed (everything after the fence
  on the first line, possibly empty), a line feed, and then either the closing fence
  or the code, a line feed and the closing fence. The function returns that code, the
  text strictly between the first and the last line with its line feeds, and the empty
  code in the first case. It does not return the tag: it returns the canonical name of
  the first entry of the registry that the tag matches by name or alias, and the empty
  string when no entry matches.
\<close>

theorem extraction_of_fenced_message:
  assumes "isCodeMessage m = Inr True"
  shows "\<exists>tag code lang.
       CHR 0x0A \<notin> set tag
     \<and> (ReplaceAll (Content m) CRLF LF = fence @ tag @ LF @ fence \<and> code = []
        \<or> ReplaceAll (Content m) CRLF LF = fence @ tag @ LF @ code @ LF @ fence)
     \<and> getLanguageAndCodeFromMessage hasUnicode reg m = Inr (lang, code)
     \<and> ((\<forall>(i, j) \<in> set reg.
            \<not> EqualFold hasUnicode tag i \<and> (\<forall>k \<in> set j. \<not> EqualFold hasUnicode k tag))
          \<and> lang = []
        \<or> (\<exists>before aliases after. reg = before @ (lang, aliases) # after
            \<and> (EqualFold hasUnicode tag lang \<or> (\<exists>k \<in> set aliases. EqualFold hasUnicode k tag))
            \<and> (\<forall>(i, j) \<in> set before.
                 \<not> EqualFold hasUnicode tag i \<and> (\<forall>k \<in> set j. \<not> EqualFold hasUnicode k tag))))"
proof -
  let ?N = "ReplaceAll (Content m) CRLF LF"
  let ?code = "\<lambda>body. Join body LF"
  from assms obtain tag body where c: "messageLines m = (fence @ tag) # body @ [fence]"
    by (auto simp: isCodeMessage_lines)
  have "fence @ tag \<in> set (messageLines m)" using c by simp
  then have "CHR 0x0A \<notin> set (fence @ tag)"
    unfolding messageLines_def by (rule Split_lines_no_LF)
  then have t: "CHR 0x0A \<notin> set tag" by simp
  have j: "Join (messageLines m) LF = ?N"
    by (simp add: messageLines_def Join_Split)
  have n: "?N = fence @ tag @ LF @ fence \<and> Join body LF = []
        \<or> ?N = fence @ tag @ LF @ Join body LF @ LF @ fence"
  proof (cases "body = []")
    case True
    with c j show ?thesis by simp
  next
    case False
    then have "Join ((fence @ tag) # body @ [fence]) LF =
        (fence @ tag) @ LF @ Join (body @ [fence]) LF"
      by (simp add: Join_Cons)
    also have "\<dots> = fence @ tag @ LF @ Join body LF @ LF @ fence"
      using False by (simp add: Join_snoc)
    finally show ?thesis using c j by simp
  qed
  have "body @ [fence] \<noteq> []" by simp
  from getLanguageAndCodeFromMessage_resolve [OF c this, of hasUnicode reg]
  have r: "getLanguageAndCodeFromMessage hasUnicode reg m =
      Inr (resolveLanguage hasUnicode reg tag, Join body LF)"
    by simp
  from registry_split [of reg hasUnicode tag]
  have l: "(\<forall>(i, j) \<in> set reg.
            \<not> EqualFold hasUnicode tag i \<and> (\<forall>k \<in> set j. \<not> EqualFold hasUnicode k tag))
          \<and> resolveLanguage hasUnicode reg tag = []
        \<or> (\<exists>before aliases after.
              reg = before @ (resolveLanguage hasUnicode reg tag, aliases) # after
            \<and> (EqualFold hasUnicode tag (resolveLanguage hasUnicode reg tag)
                \<or> (\<exists>k \<in> set aliases. EqualFold hasUnicode k tag))
            \<and> (\<forall>(i, j) \<in> set before.
                 \<not> EqualFold hasUnicode tag i \<and> (\<forall>k \<in> set j. \<not> EqualFold hasUnicode k tag)))"
  proof
    assume a: "\<forall>(i, j) \<in> set reg.
        \<not> EqualFold hasUnicode tag i \<and> (\<forall>k \<in> set j. \<not> EqualFold hasUnicode k tag)"
    then have "resolveLanguage hasUnicode reg tag = []" by (rule resolveLanguage_no_match)
    with a show ?thesis by blast
  next
    assume "\<exists>before name aliases after. reg = before @ (name, aliases) # after
        \<and> (EqualFold hasUnicode tag name \<or> (\<exists>k \<in> set aliases. EqualFold hasUnicode k tag))
        \<and> (\<forall>(i, j) \<in> set before.
             \<not> EqualFold hasUnicode tag i \<and> (\<forall>k \<in> set j. \<not> EqualFold hasUnicode k tag))"
    then obtain before name aliases after where
      s: "reg = before @ (name, aliases) # after"
      and ma: "EqualFold hasUnicode tag name \<or> (\<exists>k \<in> set aliases. EqualFold hasUnicode k tag)"
      and b: "\<forall>(i, j) \<in> set before.
             \<not> EqualFold hasUnicode tag i \<and> (\<forall>k \<in> set j. \<not> EqualFold hasUnicode k tag)"
      by blast
    from b ma have "resolveLanguage hasUnicode (before @ (name, aliases) # after) tag = name"
      by (rule resolveLanguage_first_match)
    with s have e: "resolveLanguage hasUnicode reg tag = name" by simp
    from s ma b show ?thesis unfolding e by blast
  qed
  from t n r l show ?thesis by blast
qed

text \<open>
  The claim as it was stated fails: what comes back first is not the raw tag. For the
  tag \<^verbatim>\<open>py\<close> it is the canonical name \<^verbatim>\<open>python\<close>, and for the tag \<^verbatim>\<open>foo\<close>, which no
  entry matches, it is the empty string.
\<close>

theorem extraction_of_fenced_message_counterexample:
  "isCodeMessage \<lparr>Content = ''```py\<newline>print(1)\<newline>```''\<rparr> = Inr True
   \<and> getLanguageAndCodeFromMessage bytewise [(''python'', [''py'', ''py3''])]
        \<lparr>Content = ''```py\<newline>print(1)\<newline>```''\<rparr> = Inr (''python'', ''print(1)'')
   \<and> isCodeMessage \<lparr>Content = ''```foo\<newline>print(1)\<newline>```''\<rparr> = Inr True
   \<and> getLanguageAndCodeFromMessage bytewise [(''python'', [''py'', ''py3''])]
        \<lparr>Content = ''```foo\<newline>print(1)\<newline>```''\<rparr> = Inr ('''', ''print(1)'')"
  by (simp add: isCodeMessage_def getLanguageAndCodeFromMessage_def messageLines_def
      CRLF_def LF_def fence_def index_def slice_def fold_eval)


text \<open>
  A run: a message with carriage returns before its line feeds and two lines of code.
\<close>

theorem extraction_of_fenced_message_witness:
  "isCodeMessage
     \<lparr>Content = ''```py'' @ CRLF @ ''x = 1'' @ CRLF @ ''print(x)'' @ CRLF @ ''```''\<rparr> = Inr True
   \<and> getLanguageAndCodeFromMessage bytewise [(''c'', []), (''python'', [''py'', ''py3''])]
        \<lparr>Content = ''```py'' @ CRLF @ ''x = 1'' @ CRLF @ ''print(x)'' @ CRLF @ ''```''\<rparr>
      = Inr (''python'', ''x = 1\<newline>print(x)'')"
proof -
  let ?m = "\<lparr>Content = ''```py'' @ CRLF @ ''x = 1'' @ CRLF @ ''print(x)'' @ CRLF @ ''```''\<rparr>"
  let ?reg = "[(''c'', []), (''python'', [''py'', ''py3''])]"
  have N: "ReplaceAll (Content ?m) CRLF LF =
      fence @ ''py'' @ LF @ ''x = 1\<newline>print(x)'' @ LF @ fence"
    by (simp add: CRLF_def LF_def fence_def)
  have h: "isCodeMessage ?m = Inr True"
    by (simp add: isCodeMessage_def messageLines_def CRLF_def LF_def fence_def
        index_def slice_def)
  have py: "CHR 0x0A \<notin> set ''py''" by simp
  from extraction_of_fenced_message [OF h, of bytewise ?reg]
  obtain tag code lang where
    t: "CHR 0x0A \<notin> set tag"
    and n: "ReplaceAll (Content ?m) CRLF LF = fence @ tag @ LF @ fence \<and> code = []
        \<or> ReplaceAll (Content ?m) CRLF LF = fence @ tag @ LF @ code @ LF @ fence"
    and r: "getLanguageAndCodeFromMessage bytewise ?reg ?m = Inr (lang, code)"
    and l: "(\<forall>(i, j) \<in> set ?reg.
            \<not> EqualFold bytewise tag i \<and> (\<forall>k \<in> set j. \<not> EqualFold bytewise k tag))
          \<and> lang = []
        \<or> (\<exists>before aliases after. ?reg = before @ (lang, aliases) # after
            \<and> (EqualFold bytewise tag lang \<or> (\<exists>k \<in> set aliases. EqualFold bytewise k tag))
            \<and> (\<forall>(i, j) \<in> set before.
                 \<not> EqualFold bytewise tag i \<and> (\<forall>k \<in> set j. \<not> EqualFold bytewise k tag)))"
    by blast
  from n have tc: "tag = ''py'' \<and> code = ''x = 1\<newline>print(x)''"
  proof
    assume "ReplaceAll (Content ?m) CRLF LF = fence @ tag @ LF @ fence \<and> code = []"
    with N have "tag @ LF @ fence = ''py'' @ LF @ ''x = 1\<newline>print(x)'' @ LF @ fence"
      by simp
    with t py have "fence = ''x = 1\<newline>print(x)'' @ LF @ fence"
      using first_line_unique by blast
    then show ?thesis by (simp add: fence_def)
  next
    assume "ReplaceAll (Content ?m) CRLF LF = fence @ tag @ LF @ code @ LF @ fence"
    with N have "tag @ LF @ code @ LF @ fence = ''py'' @ LF @ ''x = 1\<newline>print(x)'' @ LF @ fence"
      by simp
    with t py have "tag = ''py'' \<and> code @ LF @ fence = ''x = 1\<newline>print(x)'' @ LF @ fence"
      using first_line_unique by blast
    then show ?thesis by simp
  qed
  with l have "lang = ''python''"
    by (auto simp: Cons_eq_append_conv fold_eval)
  with tc r h show ?thesis by simp
qed

section \<open>Cropping: cropMessage\<close>

declare ilog10.simps [simp del]

lemma ilog10_nonneg: "0 \<le> ilog10 n"
  by (induction n rule: ilog10.induct) (subst ilog10.simps, simp)

lemma ilog10_22: "ilog10 22 = 1"
  by (simp add: ilog10.simps)

text \<open>The refinement of the cut index when the characters it reads exist.\<close>

lemma refineEnd_value:
  assumes "3 \<le> end1" and "end1 \<le> int (length toCrop)"
  shows "refineEnd toCrop end1 =
     Inr (if toCrop ! nat (end1 - 2) = CHR ''/'' \<and> toCrop ! nat (end1 - 3) \<noteq> CHR ''/''
          then end1 - 2
          else if toCrop ! nat (end1 - 1) = CHR ''/'' then end1 - 1 else end1)"
  using assms by (simp add: refineEnd_def slashThenOther_def index_def)

lemma refineEnd_bounds:
  assumes "2 \<le> end1" and "end1 \<le> int (length toCrop)"
    and "toCrop ! nat (end1 - 2) = CHR ''/'' \<longrightarrow> 3 \<le> end1"
  shows "\<exists>end2. refineEnd toCrop end1 = Inr end2 \<and> end1 - 2 \<le> end2 \<and> end2 \<le> end1"
  using assms by (auto simp: refineEnd_def slashThenOther_def index_def)

lemma cropAt_value:
  "0 \<le> end2 \<Longrightarrow> end2 \<le> int (length toCrop) \<Longrightarrow>
   cropAt toCrop end2 = Inr (take (nat end2) toCrop, int (length toCrop) - end2)"
  by (simp add: cropAt_def slice_def)

text \<open>
  When the message is too long for the limit, \<^verbatim>\<open>cropped\<close> is at least 22, and with a
  logarithm that is not negative there the cut index stays more than 22 below the length.
\<close>

lemma estimatedEnd_below:
  assumes "MSG_CHAR_LIM \<le> int (length toCrop) + buffer"
    and "\<And>n. 22 \<le> n \<Longrightarrow> 0 \<le> log10i n"
  shows "estimatedEnd log10i toCrop buffer < int (length toCrop) - 22"
proof -
  let ?cropped = "int (length toCrop) - (MSG_CHAR_LIM - buffer - 22)"
  from assms(1) have "22 \<le> ?cropped" by simp
  then have "0 \<le> log10i ?cropped" by (rule assms(2))
  with assms(1) show ?thesis by (simp add: estimatedEnd_def Let_def)
qed

text \<open>
  C6, as the code has it. When \<open>len(toCrop) + buffer\<close> is below the limit,
  \<^verbatim>\<open>cropMessage\<close> returns the text unchanged and the count 0. When it is at least the
  limit and the characters that the refinement of the cut index reads exist (the cut
  index after the digit estimate is at least 2, and at least 3 when the character two
  places before it is a slash), it returns a strictly shorter prefix of the text and a
  positive count, the length of the text minus the length of that prefix. Of the
  floating-point logarithm only this is used: it is not negative from 22 on.
\<close>

theorem cropMessage_unchanged_or_cropped:
  "(int (length toCrop) + buffer < MSG_CHAR_LIM \<longrightarrow>
      cropMessage log10i toCrop buffer = Inr (toCrop, 0))
   \<and> (MSG_CHAR_LIM \<le> int (length toCrop) + buffer
      \<and> (\<forall>n. 22 \<le> n \<longrightarrow> 0 \<le> log10i n)
      \<and> 2 \<le> estimatedEnd log10i toCrop buffer
      \<and> (toCrop ! nat (estimatedEnd log10i toCrop buffer - 2) = CHR ''/'' \<longrightarrow>
           3 \<le> estimatedEnd log10i toCrop buffer) \<longrightarrow>
      (\<exists>shown dropped. cropMessage log10i toCrop buffer = Inr (shown, dropped)
         \<and> strict_prefix shown toCrop \<and> 0 < dropped
         \<and> dropped = int (length toCrop) - int (length shown)))"
proof (intro conjI impI)
  assume "int (length toCrop) + buffer < MSG_CHAR_LIM"
  then show "cropMessage log10i toCrop buffer = Inr (toCrop, 0)"
    by (simp add: cropMessage_def)
next
  let ?end1 = "estimatedEnd log10i toCrop buffer"
  assume a: "MSG_CHAR_LIM \<le> int (length toCrop) + buffer
      \<and> (\<forall>n. 22 \<le> n \<longrightarrow> 0 \<le> log10i n)
      \<and> 2 \<le> ?end1
      \<and> (toCrop ! nat (?end1 - 2) = CHR ''/'' \<longrightarrow> 3 \<le> ?end1)"
  then have below: "?end1 < int (length toCrop) - 22"
    by (intro estimatedEnd_below) auto
  with a obtain end2 where r: "refineEnd toCrop ?end1 = Inr end2"
    and lo: "?end1 - 2 \<le> end2" and hi: "end2 \<le> ?end1"
    using refineEnd_bounds [of ?end1 toCrop] by auto
  from a lo hi below have b: "0 \<le> end2" "end2 < int (length toCrop)" by auto
  then have c: "cropAt toCrop end2 = Inr (take (nat end2) toCrop, int (length toCrop) - end2)"
    by (simp add: cropAt_value)
  from a r c have "cropMessage log10i toCrop buffer =
      Inr (take (nat end2) toCrop, int (length toCrop) - end2)"
    by (simp add: cropMessage_def)
  moreover from b have "strict_prefix (take (nat end2) toCrop) toCrop"
    by (simp add: strict_prefix_def take_is_prefix)
  moreover from b have "0 < int (length toCrop) - end2"
    and "int (length toCrop) - end2 = int (length toCrop) - int (length (take (nat end2) toCrop))"
    by auto
  ultimately show "\<exists>shown dropped. cropMessage log10i toCrop buffer = Inr (shown, dropped)
         \<and> strict_prefix shown toCrop \<and> 0 < dropped
         \<and> dropped = int (length toCrop) - int (length shown)"
    by blast
qed


text \<open>
  The runs below take a text of 30 characters and the buffer 470: \<^verbatim>\<open>end\<close> is 8 at first,
  \<^verbatim>\<open>cropped\<close> is 22 and the cut index after the digit estimate is 6.
\<close>

lemma estimatedEnd_example:
  "length toCrop = 30 \<Longrightarrow> estimatedEnd ilog10 toCrop 470 = 6"
  by (simp add: estimatedEnd_def MSG_CHAR_LIM_def ilog10_22)

text \<open>A short text with the buffer 26 of the caller, and a text that is cropped.\<close>

theorem cropMessage_unchanged_or_cropped_witness:
  "int (length ''print(1)'') + 26 < MSG_CHAR_LIM
   \<and> cropMessage ilog10 ''print(1)'' 26 = Inr (''print(1)'', 0)
   \<and> MSG_CHAR_LIM \<le> int (length ''0123456789abcdefghijklmnopqrst'') + 470
   \<and> (\<exists>shown dropped.
         cropMessage ilog10 ''0123456789abcdefghijklmnopqrst'' 470 = Inr (shown, dropped)
         \<and> strict_prefix shown ''0123456789abcdefghijklmnopqrst'' \<and> 0 < dropped
         \<and> dropped = int (length ''0123456789abcdefghijklmnopqrst'') - int (length shown))"
proof -
  let ?s = "''0123456789abcdefghijklmnopqrst''"
  have e: "estimatedEnd ilog10 ?s 470 = 6"
    by (simp add: estimatedEnd_example)
  have h1: "int (length ''print(1)'') + 26 < MSG_CHAR_LIM"
    by (simp add: MSG_CHAR_LIM_def)
  have h2: "MSG_CHAR_LIM \<le> int (length ?s) + 470
      \<and> (\<forall>n. 22 \<le> n \<longrightarrow> 0 \<le> ilog10 n)
      \<and> 2 \<le> estimatedEnd ilog10 ?s 470
      \<and> (?s ! nat (estimatedEnd ilog10 ?s 470 - 2) = CHR ''/'' \<longrightarrow>
           3 \<le> estimatedEnd ilog10 ?s 470)"
    by (simp add: e MSG_CHAR_LIM_def ilog10_nonneg)
  from cropMessage_unchanged_or_cropped [of "''print(1)''" 26 ilog10] h1
  have "cropMessage ilog10 ''print(1)'' 26 = Inr (''print(1)'', 0)" by blast
  moreover from cropMessage_unchanged_or_cropped [of ?s 470 ilog10] h2
  have "\<exists>shown dropped.
         cropMessage ilog10 ?s 470 = Inr (shown, dropped)
         \<and> strict_prefix shown ?s \<and> 0 < dropped
         \<and> dropped = int (length ?s) - int (length shown)" by blast
  moreover from h2 have "MSG_CHAR_LIM \<le> int (length ?s) + 470" by blast
  ultimately show ?thesis using h1 by blast
qed

text \<open>
  For every buffer the claim fails: with the buffer 500 the empty text is not below the
  limit, the cut index is negative, and \<^verbatim>\<open>toCrop[end-2]\<close> panics.
\<close>

theorem cropMessage_unchanged_or_cropped_counterexample:
  "MSG_CHAR_LIM \<le> int (length ([] :: string)) + 500
   \<and> cropMessage ilog10 [] 500 = Inl IndexOutOfRange"
  by (simp add: cropMessage_def estimatedEnd_def MSG_CHAR_LIM_def ilog10_22 refineEnd_def
      slashThenOther_def index_def)

text \<open>
  C7, as the code has it. With the cut index after the digit estimate at least 3 and at
  most the length of the text: if the character two places before the cut point is a
  slash and the character three places before it is not, the cut point moves back by
  two; otherwise, if the character just before the cut point is a slash, it moves back
  by one; otherwise it stays. The text returned ends at the cut point.
\<close>

theorem cut_point_refinement:
  assumes "MSG_CHAR_LIM \<le> int (length toCrop) + buffer"
    and "end1 = estimatedEnd log10i toCrop buffer"
    and "3 \<le> end1" and "end1 \<le> int (length toCrop)"
  shows "cropMessage log10i toCrop buffer =
     (if toCrop ! nat (end1 - 2) = CHR ''/'' \<and> toCrop ! nat (end1 - 3) \<noteq> CHR ''/''
      then Inr (take (nat (end1 - 2)) toCrop, int (length toCrop) - (end1 - 2))
      else if toCrop ! nat (end1 - 1) = CHR ''/''
      then Inr (take (nat (end1 - 1)) toCrop, int (length toCrop) - (end1 - 1))
      else Inr (take (nat end1) toCrop, int (length toCrop) - end1))"
proof -
  from assms(1) have "\<not> int (length toCrop) + buffer < MSG_CHAR_LIM" by simp
  then have "cropMessage log10i toCrop buffer =
      (case refineEnd toCrop end1 of Inl e \<Rightarrow> Inl e | Inr end2 \<Rightarrow> cropAt toCrop end2)"
    by (simp add: cropMessage_def assms(2))
  with assms(3,4) show ?thesis
    by (simp add: refineEnd_value cropAt_value)
qed

text \<open>One run for each of the three cases.\<close>

theorem cut_point_refinement_witness:
  "cropMessage ilog10 ''0123/56789abcdefghijklmnopqrst'' 470 = Inr (''0123'', 26)
   \<and> cropMessage ilog10 ''012///6789abcdefghijklmnopqrst'' 470 = Inr (''012//'', 25)
   \<and> cropMessage ilog10 ''0123456789abcdefghijklmnopqrst'' 470 = Inr (''012345'', 24)"
proof -
  have h1: "MSG_CHAR_LIM \<le> int (length s) + 470" if "length s = 30" for s :: string
    using that by (simp add: MSG_CHAR_LIM_def)
  have h2: "6 = estimatedEnd ilog10 s 470" if "length s = 30" for s
    using that by (simp add: estimatedEnd_example)
  have h3: "(3::int) \<le> 6" by simp
  have h4: "6 \<le> int (length s)" if "length s = 30" for s :: string
    using that by simp
  have a: "length ''0123/56789abcdefghijklmnopqrst'' = 30" by simp
  have b: "length ''012///6789abcdefghijklmnopqrst'' = 30" by simp
  have c: "length ''0123456789abcdefghijklmnopqrst'' = 30" by simp
  from cut_point_refinement [OF h1 [OF a] h2 [OF a] h3 h4 [OF a]]
  have "cropMessage ilog10 ''0123/56789abcdefghijklmnopqrst'' 470 = Inr (''0123'', 26)"
    by simp
  moreover from cut_point_refinement [OF h1 [OF b] h2 [OF b] h3 h4 [OF b]]
  have "cropMessage ilog10 ''012///6789abcdefghijklmnopqrst'' 470 = Inr (''012//'', 25)"
    by simp
  moreover from cut_point_refinement [OF h1 [OF c] h2 [OF c] h3 h4 [OF c]]
  have "cropMessage ilog10 ''0123456789abcdefghijklmnopqrst'' 470 = Inr (''012345'', 24)"
    by simp
  ultimately show ?thesis by blast
qed

text \<open>
  The claim as it was stated fails: here the two characters just before the cut point
  6 are \<^verbatim>\<open>4\<close> and a slash, a non-slash followed by a slash, and the cut point moves back
  by one, not by two.
\<close>

theorem cut_point_refinement_counterexample:
  "estimatedEnd ilog10 ''01234/6789abcdefghijklmnopqrst'' 470 = 6
   \<and> ''01234/6789abcdefghijklmnopqrst'' ! 4 \<noteq> CHR ''/''
   \<and> ''01234/6789abcdefghijklmnopqrst'' ! 5 = CHR ''/''
   \<and> cropMessage ilog10 ''01234/6789abcdefghijklmnopqrst'' 470 = Inr (''01234'', 25)"
  by (simp add: estimatedEnd_example cropMessage_def MSG_CHAR_LIM_def refineEnd_def
      slashThenOther_def index_def cropAt_def slice_def)

end
